theory Spec2Isabelle
  imports Complex_Main "HOL-Library.Log_Nat"
begin

section \<open>View state of the PDF viewer component\<close>

text \<open>
  The component \<open>App\<close> of the thumbnail version of the viewer keeps three pieces of
  React state: \<open>numPages\<close> (initially \<open>null\<close>), \<open>pageNumber\<close> (initially \<open>1\<close>) and
  \<open>scale\<close> (initially \<open>1.0\<close>). Page numbers are JavaScript numbers that only ever
  hold integers (exact in binary64 below \<open>2^53\<close>), modelled as \<open>int\<close>; \<open>null\<close> is \<open>None\<close>. The zoom scale is a binary64
  value, modelled by the rational it denotes.
\<close>

record view_state =
  numPages :: "int option"
  pageNumber :: int
  scale :: rat

definition initial_state :: view_state where
  "initial_state = \<lparr>numPages = None, pageNumber = 1, scale = 1\<rparr>"

text \<open>\<open>ToNumber\<close> as \<open>Math.min\<close> applies it to \<open>numPages\<close>: \<open>null\<close> becomes \<open>0\<close>.\<close>

fun to_number :: "int option \<Rightarrow> int" where
  "to_number None = 0"
| "to_number (Some n) = n"

text \<open>Truthiness as \<open>numPages && ...\<close> tests it: \<open>null\<close> and \<open>0\<close> are falsy.\<close>

fun truthy :: "int option \<Rightarrow> bool" where
  "truthy None = False"
| "truthy (Some n) = (n \<noteq> 0)"

subsection \<open>Binary64 arithmetic on the zoom scale\<close>

text \<open>
  JavaScript computes \<open>prevScale + 0.2\<close> and \<open>prevScale - 0.2\<close> in IEEE 754 binary64:
  the exact sum or difference of the two operands, rounded to the nearest value with a
  53-bit significand, ties to the even significand. \<open>round_double\<close> is that rounding
  on the rational value: \<open>binade x\<close> is the exponent \<open>e\<close> with \<open>2^e \<le> |x| < 2^(e+1)\<close>
  and \<open>quantum x\<close> the spacing \<open>2^(e-52)\<close> of binary64 values there (with the
  subnormal spacing below \<open>2^(-1022)\<close>). Overflow to infinity, NaN and the sign of zero
  are not represented; the scale never gets near them.
\<close>

definition round_half_even :: "rat \<Rightarrow> int" where
  "round_half_even x =
     (let f = \<lfloor>x\<rfloor>; r = x - of_int f
      in if r < 1 / 2 then f else if 1 / 2 < r then f + 1 else if even f then f else f + 1)"

definition binade :: "rat \<Rightarrow> int" where
  "binade x =
     (let a = \<bar>x\<bar>
      in if 1 \<le> a then int (floorlog 2 (nat \<lfloor>a\<rfloor>)) - 1
         else - int (floorlog 2 (nat (\<lceil>1 / a\<rceil> - 1))))"

definition quantum :: "rat \<Rightarrow> rat" where
  "quantum x = 2 powi (max (binade x) (- 1022) - 52)"

definition round_double :: "rat \<Rightarrow> rat" where
  "round_double x = of_int (round_half_even (x / quantum x)) * quantum x"

definition js_add :: "rat \<Rightarrow> rat \<Rightarrow> rat" where
  "js_add x y = round_double (x + y)"

definition js_sub :: "rat \<Rightarrow> rat \<Rightarrow> rat" where
  "js_sub x y = round_double (x - y)"

text \<open>The literal \<open>0.2\<close> is the binary64 value nearest to \<open>2/10\<close>; \<open>3.0\<close> and \<open>0.5\<close> are exact.\<close>

definition lit_0_2 :: rat where
  "lit_0_2 = round_double (2 / 10)"

subsection \<open>Event handlers\<close>

definition onDocumentLoadSuccess :: "int \<Rightarrow> view_state \<Rightarrow> view_state" where
  "onDocumentLoadSuccess n s =
     (let s' = s\<lparr>numPages := Some n\<rparr>
      in if pageNumber s = 1 then s'\<lparr>pageNumber := 1\<rparr> else s')"

definition goToPrevPage :: "view_state \<Rightarrow> view_state" where
  "goToPrevPage s = s\<lparr>pageNumber := max 1 (pageNumber s - 1)\<rparr>"

definition goToNextPage :: "view_state \<Rightarrow> view_state" where
  "goToNextPage s = s\<lparr>pageNumber := min (to_number (numPages s)) (pageNumber s + 1)\<rparr>"

definition goToPage :: "int \<Rightarrow> view_state \<Rightarrow> view_state" where
  "goToPage page s = s\<lparr>pageNumber := page\<rparr>"

definition zoomIn :: "view_state \<Rightarrow> view_state" where
  "zoomIn s = s\<lparr>scale := min (js_add (scale s) lit_0_2) 3\<rparr>"

definition zoomOut :: "view_state \<Rightarrow> view_state" where
  "zoomOut s = s\<lparr>scale := max (js_sub (scale s) lit_0_2) (1 / 2)\<rparr>"

text \<open>
  The first two versions of the component (no zoom, no thumbnails) mount a single
  \<open>Document\<close> and reset the page in their load callback.
\<close>

definition onDocumentLoadSuccess_v1 :: "int \<Rightarrow> view_state \<Rightarrow> view_state" where
  "onDocumentLoadSuccess_v1 n s = s\<lparr>numPages := Some n, pageNumber := 1\<rparr>"

subsection \<open>Thumbnail list\<close>

text \<open>
  \<open>Array.from(new Array(numPages), (el, index) => ...)\<close>: \<open>new Array(n)\<close> throws a
  \<open>RangeError\<close> unless \<open>0 \<le> n < 2^32\<close>; otherwise the callback runs for
  \<open>index = 0, ..., n - 1\<close> in order and yields the page \<open>index + 1\<close> with its
  \<open>isActive\<close> flag.
\<close>

datatype js_error = RangeError

definition thumbnail_items :: "int \<Rightarrow> int \<Rightarrow> js_error + (int \<times> bool) list" where
  "thumbnail_items n current =
     (if n < 0 \<or> 2 ^ 32 \<le> n then Inl RangeError
      else Inr (map (\<lambda>index. let page = int index + 1; isActive = (page = current)
                              in (page, isActive)) [0..<nat n]))"

text \<open>The sidebar renders the list only under the guard \<open>numPages && ...\<close>.\<close>

definition sidebar :: "view_state \<Rightarrow> js_error + (int \<times> bool) list" where
  "sidebar s =
     (if truthy (numPages s) then thumbnail_items (to_number (numPages s)) (pageNumber s)
      else Inr [])"

subsection \<open>Events of the component\<close>

datatype event =
    DocumentLoaded int
  | PrevClicked
  | NextClicked
  | ThumbnailClicked int
  | ZoomInClicked
  | ZoomOutClicked

fun handle :: "event \<Rightarrow> view_state \<Rightarrow> view_state" where
  "handle (DocumentLoaded n) s = onDocumentLoadSuccess n s"
| "handle PrevClicked s = goToPrevPage s"
| "handle NextClicked s = goToNextPage s"
| "handle (ThumbnailClicked page) s = goToPage page s"
| "handle ZoomInClicked s = zoomIn s"
| "handle ZoomOutClicked s = zoomOut s"

fun run :: "view_state \<Rightarrow> event list \<Rightarrow> view_state" where
  "run s [] = s"
| "run s (e # es) = run (handle e s) es"

text \<open>
  What the rendered page lets the user do in state \<open>s\<close>: the page controls exist only
  under \<open>numPages && ...\<close>, \<open>Previous\<close> is disabled when \<open>pageNumber <= 1\<close>, \<open>Next\<close>
  when \<open>pageNumber >= numPages\<close>; a thumbnail can be clicked only if it is in the
  rendered list; the zoom buttons are disabled at \<open>scale >= 3.0\<close> and \<open>scale <= 0.5\<close>.
  A load callback can arrive in any state.
\<close>

fun enabled :: "view_state \<Rightarrow> event \<Rightarrow> bool" where
  "enabled s (DocumentLoaded n) = True"
| "enabled s PrevClicked = (truthy (numPages s) \<and> \<not> pageNumber s \<le> 1)"
| "enabled s NextClicked = (truthy (numPages s) \<and> \<not> to_number (numPages s) \<le> pageNumber s)"
| "enabled s (ThumbnailClicked page) =
     (case sidebar s of Inl err \<Rightarrow> False | Inr items \<Rightarrow> page \<in> fst ` set items)"
| "enabled s ZoomInClicked = (\<not> 3 \<le> scale s)"
| "enabled s ZoomOutClicked = (\<not> scale s \<le> 1 / 2)"

fun ui_run :: "view_state \<Rightarrow> event list \<Rightarrow> view_state option" where
  "ui_run s [] = Some s"
| "ui_run s (e # es) = (if enabled s e then ui_run (handle e s) es else None)"


text \<open>A navigation call whose \<open>goToPage\<close> argument respects the caller's contract.\<close>

fun is_navigation :: "int \<Rightarrow> event \<Rightarrow> bool" where
  "is_navigation T PrevClicked = True"
| "is_navigation T NextClicked = True"
| "is_navigation T (ThumbnailClicked page) = (1 \<le> page \<and> page \<le> T)"
| "is_navigation T e = False"

fun is_zoom :: "event \<Rightarrow> bool" where
  "is_zoom ZoomInClicked = True"
| "is_zoom ZoomOutClicked = True"
| "is_zoom e = False"

text \<open>A zoom call is clamped when \<open>Math.min\<close> or \<open>Math.max\<close> picks the bound.\<close>

definition zoomIn_clamped :: "view_state \<Rightarrow> bool" where
  "zoomIn_clamped s = (3 < js_add (scale s) lit_0_2)"

definition zoomOut_clamped :: "view_state \<Rightarrow> bool" where
  "zoomOut_clamped s = (js_sub (scale s) lit_0_2 < 1 / 2)"

text \<open>
  The scales the component can hold: \<open>useState(1.0)\<close>, then any number of \<open>zoomIn\<close>
  and \<open>zoomOut\<close> calls.
\<close>

inductive zoom_reachable :: "view_state \<Rightarrow> bool" where
  start: "scale s = 1 \<Longrightarrow> zoom_reachable s"
| zoomed_in: "zoom_reachable s \<Longrightarrow> zoom_reachable (zoomIn s)"
| zoomed_out: "zoom_reachable s \<Longrightarrow> zoom_reachable (zoomOut s)"

text \<open>A state whose scale is the binary64 value of the literal \<open>0.9\<close>.\<close>

abbreviation state_0_9 :: view_state where
  "state_0_9 \<equiv> \<lparr>numPages = Some 5, pageNumber = 1, scale = round_double (9 / 10)\<rparr>"

subsection \<open>Integer image of the rounding, for evaluation\<close>

text \<open>
  Every scale the handlers produce is a multiple of \<open>2^(-55)\<close>. On numerators over
  \<open>2^55\<close> the rounding is integer division with remainder, which evaluates quickly.
\<close>

definition rhe_div :: "int \<Rightarrow> int \<Rightarrow> int" where
  "rhe_div m d =
     (let f = m div d; r = m mod d
      in if 2 * r < d then f else if d < 2 * r then f + 1 else if even f then f else f + 1)"

definition round_units :: "int \<Rightarrow> int" where
  "round_units m =
     (let d = (if m < 2 ^ 53 then 1 else if m < 2 ^ 54 then 2 else if m < 2 ^ 55 then 4
               else if m < 2 ^ 56 then 8 else 16)
      in d * rhe_div m d)"

definition zoomIn_units :: "int \<Rightarrow> int" where
  "zoomIn_units m = min (round_units (m + 7205759403792794)) (3 * 2 ^ 55)"

definition zoomOut_units :: "int \<Rightarrow> int" where
  "zoomOut_units m = max (round_units (m - 7205759403792794)) (2 ^ 54)"

definition reachable_units :: "int list" where
  "reachable_units =
     [18014398509481984, 21617278211378368, 21617278211378384, 25220157913274776,
      28823037615171160, 28823037615171176, 32425917317067568, 36028797018963952,
      36028797018963968, 39631676720860360, 43234556422756744, 43234556422756760,
      46837436124653152, 50440315826549536, 50440315826549552, 54043195528445944,
      57646075230342328, 57646075230342344, 61248954932238736, 64851834634135120,
      64851834634135136, 68454714336031528, 72057594037927912, 72057594037927928,
      75660473739824320, 79263353441720704, 79263353441720720, 82866233143617120,
      86469112845513504, 86469112845513520, 90071992547409920, 93674872249306304,
      93674872249306320, 97277751951202720, 100880631653099104, 100880631653099120,
      104483511354995520, 108086391056891904]"

section \<open>Repeated navigation\<close>

lemma goToNextPage_page:
  "pageNumber (goToNextPage s) = min (to_number (numPages s)) (pageNumber s + 1)"
  by (simp add: goToNextPage_def)

lemma goToNextPage_numPages: "numPages (goToNextPage s) = numPages s"
  by (simp add: goToNextPage_def)

lemma funpow_goToNextPage_numPages: "numPages ((goToNextPage ^^ n) s) = numPages s"
  by (induction n) (simp_all add: goToNextPage_numPages)

lemma goToPrevPage_page: "pageNumber (goToPrevPage s) = max 1 (pageNumber s - 1)"
  by (simp add: goToPrevPage_def)

text \<open>
  C5. With \<open>numPages = T\<close> known and \<open>pageNumber = 1\<close>, \<open>n \<ge> 1\<close> calls of
  \<open>goToNextPage\<close> leave \<open>pageNumber = min T (1 + n)\<close>; one call computes
  \<open>min numPages (pageNumber + 1)\<close> and changes nothing on the last page.
\<close>

theorem goToNextPage_iterated:
  "(numPages s = Some T \<and> pageNumber s = 1 \<and> 1 \<le> n
      \<longrightarrow> pageNumber ((goToNextPage ^^ n) s) = min T (1 + int n))
   \<and> (numPages s = Some T
      \<longrightarrow> pageNumber (goToNextPage s) = min T (pageNumber s + 1))
   \<and> (numPages s = Some T \<and> pageNumber s = T \<longrightarrow> goToNextPage s = s)"
proof (intro conjI impI)
  assume a: "numPages s = Some T \<and> pageNumber s = 1 \<and> 1 \<le> n"
  have "1 \<le> k \<Longrightarrow> pageNumber ((goToNextPage ^^ k) s) = min T (1 + int k)" for k
  proof (induction k)
    case 0
    then show ?case by simp
  next
    case (Suc k)
    show ?case
    proof (cases "k = 0")
      case True
      with a show ?thesis by (simp add: goToNextPage_page)
    next
      case False
      with Suc have "pageNumber ((goToNextPage ^^ k) s) = min T (1 + int k)" by simp
      with a show ?thesis
        by (simp add: goToNextPage_page funpow_goToNextPage_numPages)
    qed
  qed
  with a show "pageNumber ((goToNextPage ^^ n) s) = min T (1 + int n)" by simp
next
  assume "numPages s = Some T"
  then show "pageNumber (goToNextPage s) = min T (pageNumber s + 1)"
    by (simp add: goToNextPage_page)
next
  assume "numPages s = Some T \<and> pageNumber s = T"
  then show "goToNextPage s = s" by (simp add: goToNextPage_def)
qed

theorem goToNextPage_iterated_witness:
  "pageNumber ((goToNextPage ^^ 7) \<lparr>numPages = Some 5, pageNumber = 1, scale = 1\<rparr>) = 5
   \<and> pageNumber (goToNextPage \<lparr>numPages = Some 5, pageNumber = 3, scale = 1\<rparr>) = 4
   \<and> goToNextPage \<lparr>numPages = Some 5, pageNumber = 5, scale = 1\<rparr>
       = \<lparr>numPages = Some 5, pageNumber = 5, scale = 1\<rparr>"
  using goToNextPage_iterated [of "\<lparr>numPages = Some 5, pageNumber = 1, scale = 1\<rparr>" 5 7]
    goToNextPage_iterated [of "\<lparr>numPages = Some 5, pageNumber = 3, scale = 1\<rparr>" 5 1]
    goToNextPage_iterated [of "\<lparr>numPages = Some 5, pageNumber = 5, scale = 1\<rparr>" 5 1]
  by simp

text \<open>
  C6. From \<open>pageNumber = k \<ge> 1\<close>, \<open>n \<ge> 1\<close> calls of \<open>goToPrevPage\<close> leave
  \<open>pageNumber = max 1 (k - n)\<close>; one call computes \<open>max 1 (pageNumber - 1)\<close>, changes
  nothing on page 1 and is idempotent there.
\<close>

theorem goToPrevPage_iterated:
  "(1 \<le> pageNumber s \<and> 1 \<le> n
      \<longrightarrow> pageNumber ((goToPrevPage ^^ n) s) = max 1 (pageNumber s - int n))
   \<and> pageNumber (goToPrevPage s) = max 1 (pageNumber s - 1)
   \<and> (pageNumber s = 1
      \<longrightarrow> goToPrevPage s = s \<and> goToPrevPage (goToPrevPage s) = goToPrevPage s)"
proof (intro conjI impI)
  assume a: "1 \<le> pageNumber s \<and> 1 \<le> n"
  have "pageNumber ((goToPrevPage ^^ k) s) = max 1 (pageNumber s - int k)" for k
    using a by (induction k) (simp_all add: goToPrevPage_page)
  then show "pageNumber ((goToPrevPage ^^ n) s) = max 1 (pageNumber s - int n)" .
next
  show "pageNumber (goToPrevPage s) = max 1 (pageNumber s - 1)"
    by (rule goToPrevPage_page)
next
  assume "pageNumber s = 1"
  then show "goToPrevPage s = s" by (simp add: goToPrevPage_def)
next
  assume "pageNumber s = 1"
  then show "goToPrevPage (goToPrevPage s) = goToPrevPage s" by (simp add: goToPrevPage_def)
qed

theorem goToPrevPage_iterated_witness:
  "pageNumber ((goToPrevPage ^^ 2) \<lparr>numPages = Some 9, pageNumber = 4, scale = 1\<rparr>) = 2
   \<and> pageNumber ((goToPrevPage ^^ 6) \<lparr>numPages = Some 9, pageNumber = 4, scale = 1\<rparr>) = 1
   \<and> goToPrevPage \<lparr>numPages = Some 9, pageNumber = 1, scale = 1\<rparr>
       = \<lparr>numPages = Some 9, pageNumber = 1, scale = 1\<rparr>"
  using goToPrevPage_iterated [of "\<lparr>numPages = Some 9, pageNumber = 4, scale = 1\<rparr>" 2]
    goToPrevPage_iterated [of "\<lparr>numPages = Some 9, pageNumber = 4, scale = 1\<rparr>" 6]
    goToPrevPage_iterated [of "\<lparr>numPages = Some 9, pageNumber = 1, scale = 1\<rparr>" 1]
  by simp

text \<open>
  C7. \<open>goToPage p\<close> stores \<open>p\<close> in \<open>pageNumber\<close> whatever \<open>p\<close> is: no comparison with
  \<open>1\<close> or \<open>numPages\<close> takes place and nothing else changes.
\<close>

theorem goToPage_sets_page:
  "pageNumber (goToPage p s) = p \<and> goToPage p s = s\<lparr>pageNumber := p\<rparr>"
  by (simp add: goToPage_def)

section \<open>The rounding on the range of the zoom scale\<close>

lemma floorlog2_eq: "2 ^ k \<le> n \<Longrightarrow> n < 2 ^ Suc k \<Longrightarrow> floorlog 2 n = Suc k"
  using floorlog_leI[of n 2 "Suc k"] floorlog_ge_SucI[of 2 k n] by simp

lemma nat_between_pow2:
  assumes "(2::int) ^ k \<le> z" "z < 2 ^ Suc k"
  shows "2 ^ k \<le> nat z \<and> nat z < 2 ^ Suc k"
proof -
  have z0: "0 \<le> z" using assms(1) zero_le_power[of "2::int" k] by linarith
  then have "int (nat z) = z" by simp
  moreover have "int (2 ^ k) = 2 ^ k" "int (2 ^ Suc k) = 2 ^ Suc k" by simp_all
  ultimately have "int (2 ^ k) \<le> int (nat z)" "int (nat z) < int (2 ^ Suc k)"
    using assms by presburger+
  then show ?thesis by (simp only: of_nat_le_iff of_nat_less_iff)
qed

lemma binade_ge1:
  assumes "2 ^ k \<le> x" "x < 2 ^ Suc k"
  shows "binade x = int k"
proof -
  have x1: "1 \<le> x" using assms(1) one_le_power[of "2::rat" k] by linarith
  have f1: "(2::int) ^ k \<le> \<lfloor>x\<rfloor>"
    using assms(1) by (simp add: le_floor_iff)
  have f2: "\<lfloor>x\<rfloor> < 2 ^ Suc k"
    using assms(2) by (simp add: floor_less_iff)
  have "2 ^ k \<le> nat \<lfloor>x\<rfloor> \<and> nat \<lfloor>x\<rfloor> < 2 ^ Suc k"
    using f1 f2 by (rule nat_between_pow2)
  then have "floorlog 2 (nat \<lfloor>x\<rfloor>) = Suc k" by (simp add: floorlog2_eq)
  with x1 show ?thesis by (simp add: binade_def Let_def)
qed

lemma binade_lt1:
  assumes "1 / 2 ^ Suc k \<le> x" "x < 1 / 2 ^ k"
  shows "binade x = - int (Suc k)"
proof -
  have p: "(0::rat) < 1 / 2 ^ Suc k" by simp
  have x0: "0 < x" using assms(1) p by linarith
  have "(1::rat) / 2 ^ k \<le> 1" by (simp add: divide_le_eq)
  then have xlt1: "x < 1" using assms(2) by linarith
  have u: "1 / x \<le> 2 ^ Suc k" using assms(1) x0 by (simp add: field_simps)
  have l: "2 ^ k < 1 / x" using assms(2) x0 by (simp add: field_simps)
  have "\<lceil>1 / x\<rceil> \<le> (2::int) ^ Suc k" using u by (simp add: ceiling_le_iff)
  then have c1: "\<lceil>1 / x\<rceil> - 1 < 2 ^ Suc k" by linarith
  have "(2::int) ^ k < \<lceil>1 / x\<rceil>" using l by (simp add: less_ceiling_iff)
  then have c2: "2 ^ k \<le> \<lceil>1 / x\<rceil> - 1" by linarith
  have "2 ^ k \<le> nat (\<lceil>1 / x\<rceil> - 1) \<and> nat (\<lceil>1 / x\<rceil> - 1) < 2 ^ Suc k"
    using c2 c1 by (rule nat_between_pow2)
  then have "floorlog 2 (nat (\<lceil>1 / x\<rceil> - 1)) = Suc k" by (simp add: floorlog2_eq)
  with x0 xlt1 show ?thesis by (simp add: binade_def Let_def)
qed

lemma round_half_even_error: "\<bar>of_int (round_half_even y) - y\<bar> \<le> 1 / 2"
proof -
  have "of_int \<lfloor>y\<rfloor> \<le> y" "y < of_int \<lfloor>y\<rfloor> + 1" by linarith+
  then show ?thesis by (auto simp: round_half_even_def Let_def)
qed

lemma round_half_even_of_int_div:
  assumes "0 < d"
  shows "round_half_even (of_int m / of_int d) = rhe_div m d"
proof -
  have fl: "\<lfloor>(of_int m :: rat) / of_int d\<rfloor> = m div d" by (rule floor_divide_of_int_eq)
  have "(of_int m :: rat) = of_int (d * (m div d) + m mod d)" by simp
  then have "(of_int m :: rat) = of_int d * of_int (m div d) + of_int (m mod d)"
    by (simp only: of_int_add of_int_mult)
  then have r: "(of_int m :: rat) / of_int d - of_int (m div d) = of_int (m mod d) / of_int d"
    using assms by (simp add: field_simps)
  have lt: "(of_int (m mod d) :: rat) / of_int d < 1 / 2 \<longleftrightarrow> 2 * (m mod d) < d"
  proof -
    have "(of_int (m mod d) :: rat) / of_int d < 1 / 2
        \<longleftrightarrow> (of_int (2 * (m mod d)) :: rat) < of_int d"
      using assms by (simp add: field_simps)
    then show ?thesis by (simp only: of_int_less_iff)
  qed
  have gt: "1 / 2 < (of_int (m mod d) :: rat) / of_int d \<longleftrightarrow> d < 2 * (m mod d)"
  proof -
    have "1 / 2 < (of_int (m mod d) :: rat) / of_int d
        \<longleftrightarrow> (of_int d :: rat) < of_int (2 * (m mod d))"
      using assms by (simp add: field_simps)
    then show ?thesis by (simp only: of_int_less_iff)
  qed
  show ?thesis
    unfolding round_half_even_def rhe_div_def Let_def fl r lt gt ..
qed

lemma quantum_ge1: "2 ^ k \<le> x \<Longrightarrow> x < 2 ^ Suc k \<Longrightarrow> quantum x = 2 powi (int k - 52)"
  by (simp add: quantum_def binade_ge1)

lemma quantum_lt1:
  "1 / 2 ^ Suc k \<le> x \<Longrightarrow> x < 1 / 2 ^ k \<Longrightarrow> k < 1022
     \<Longrightarrow> quantum x = 2 powi (- int (Suc k) - 52)"
  by (simp add: quantum_def binade_lt1)

lemma quantum_cases:
  "1 / 8 \<le> x \<Longrightarrow> x < 1 / 4 \<Longrightarrow> quantum x = 1 / 2 ^ 55"
  "1 / 4 \<le> x \<Longrightarrow> x < 1 / 2 \<Longrightarrow> quantum x = 1 / 2 ^ 54"
  "1 / 2 \<le> x \<Longrightarrow> x < 1 \<Longrightarrow> quantum x = 1 / 2 ^ 53"
  "1 \<le> x \<Longrightarrow> x < 2 \<Longrightarrow> quantum x = 1 / 2 ^ 52"
  "2 \<le> x \<Longrightarrow> x < 4 \<Longrightarrow> quantum x = 1 / 2 ^ 51"
  using quantum_lt1[of 2 x] quantum_lt1[of 1 x] quantum_lt1[of 0 x]
    quantum_ge1[of 0 x] quantum_ge1[of 1 x]
  by (simp_all add: power_int_def power_divide)

lemma round_double_with_quantum:
  fixes m d :: int
  assumes "0 < d" "quantum (of_int m / 2 ^ 55) = of_int d / 2 ^ 55"
  shows "round_double (of_int m / 2 ^ 55) = of_int (d * rhe_div m d) / 2 ^ 55"
proof -
  have e: "(of_int m / 2 ^ 55 :: rat) / (of_int d / 2 ^ 55) = of_int m / of_int d"
    by simp
  have "round_double (of_int m / 2 ^ 55)
      = of_int (round_half_even ((of_int m / 2 ^ 55) / (of_int d / 2 ^ 55))) * (of_int d / 2 ^ 55)"
    unfolding round_double_def assms(2) ..
  also have "\<dots> = of_int (rhe_div m d) * (of_int d / 2 ^ 55)"
    unfolding e round_half_even_of_int_div[OF assms(1)] ..
  also have "\<dots> = of_int (d * rhe_div m d) / 2 ^ 55" by simp
  finally show ?thesis .
qed

lemma round_double_units:
  assumes "2 ^ 52 \<le> m" "m < 2 ^ 57"
  shows "round_double (of_int m / 2 ^ 55) = of_int (round_units m) / 2 ^ 55"
proof -
  let ?x = "of_int m / 2 ^ 55 :: rat"
  have lo: "1 / 8 \<le> ?x" using assms(1) by simp
  have hi: "?x < 4" using assms(2) by simp
  consider "m < 2 ^ 53" | "2 ^ 53 \<le> m" "m < 2 ^ 54" | "2 ^ 54 \<le> m" "m < 2 ^ 55"
    | "2 ^ 55 \<le> m" "m < 2 ^ 56" | "2 ^ 56 \<le> m" by linarith
  then show ?thesis
  proof cases
    case 1
    then have "?x < 1 / 4" by simp
    with lo have "quantum ?x = of_int 1 / 2 ^ 55" by (simp add: quantum_cases)
    then have "round_double ?x = of_int (1 * rhe_div m 1) / 2 ^ 55"
      by (intro round_double_with_quantum) simp_all
    with 1 show ?thesis by (simp add: round_units_def)
  next
    case 2
    then have "1 / 4 \<le> ?x" "?x < 1 / 2" by simp_all
    then have "quantum ?x = of_int 2 / 2 ^ 55" by (simp add: quantum_cases)
    then have "round_double ?x = of_int (2 * rhe_div m 2) / 2 ^ 55"
      by (intro round_double_with_quantum) simp_all
    with 2 show ?thesis by (simp add: round_units_def)
  next
    case 3
    then have "1 / 2 \<le> ?x" "?x < 1" by simp_all
    then have "quantum ?x = of_int 4 / 2 ^ 55" by (simp add: quantum_cases)
    then have "round_double ?x = of_int (4 * rhe_div m 4) / 2 ^ 55"
      by (intro round_double_with_quantum) simp_all
    with 3 show ?thesis by (simp add: round_units_def)
  next
    case 4
    then have "1 \<le> ?x" "?x < 2" by simp_all
    then have "quantum ?x = of_int 8 / 2 ^ 55" by (simp add: quantum_cases)
    then have "round_double ?x = of_int (8 * rhe_div m 8) / 2 ^ 55"
      by (intro round_double_with_quantum) simp_all
    with 4 show ?thesis by (simp add: round_units_def)
  next
    case 5
    then have "2 \<le> ?x" by simp
    with hi have "quantum ?x = of_int 16 / 2 ^ 55" by (simp add: quantum_cases)
    then have "round_double ?x = of_int (16 * rhe_div m 16) / 2 ^ 55"
      by (intro round_double_with_quantum) simp_all
    with 5 show ?thesis by (simp add: round_units_def)
  qed
qed

lemma quantum_bounds:
  assumes "1 / 8 \<le> x" "x < 4"
  shows "0 < quantum x \<and> quantum x \<le> 1 / 2 ^ 51"
proof -
  consider "x < 1 / 4" | "1 / 4 \<le> x" "x < 1 / 2" | "1 / 2 \<le> x" "x < 1"
    | "1 \<le> x" "x < 2" | "2 \<le> x" by linarith
  then show ?thesis
    using assms by cases (simp_all add: quantum_cases)
qed

lemma round_double_error:
  assumes "0 < quantum x"
  shows "\<bar>round_double x - x\<bar> \<le> quantum x / 2"
proof -
  let ?q = "quantum x"
  have "round_double x - x = (of_int (round_half_even (x / ?q)) - x / ?q) * ?q"
    using assms by (simp add: round_double_def field_simps)
  then have "\<bar>round_double x - x\<bar> = \<bar>of_int (round_half_even (x / ?q)) - x / ?q\<bar> * ?q"
    using assms by (simp add: abs_mult)
  also have "\<dots> \<le> (1 / 2) * ?q"
    using round_half_even_error[of "x / ?q"] assms by (intro mult_right_mono) simp_all
  finally show ?thesis by simp
qed

lemma round_double_near:
  assumes "1 / 8 \<le> x" "x < 4"
  shows "x - 1 / 2 ^ 52 \<le> round_double x \<and> round_double x \<le> x + 1 / 2 ^ 52"
proof -
  from quantum_bounds[OF assms] have q: "0 < quantum x" "quantum x \<le> 1 / 2 ^ 51" by simp_all
  from round_double_error[OF q(1)] have "\<bar>round_double x - x\<bar> \<le> quantum x / 2" .
  with q(2) have "\<bar>round_double x - x\<bar> \<le> 1 / 2 ^ 52" by simp
  then show ?thesis by linarith
qed

lemma lit_0_2_value: "lit_0_2 = 7205759403792794 / 2 ^ 55"
proof -
  have q: "quantum (2 / 10) = 1 / 2 ^ 55" by (simp add: quantum_cases)
  have e: "(2 / 10 :: rat) / (1 / 2 ^ 55) = of_int (2 ^ 55) / of_int 5" by simp
  have r: "rhe_div (2 ^ 55) 5 = 7205759403792794" by (simp add: rhe_div_def)
  have "lit_0_2 = of_int (round_half_even ((2 / 10) / (1 / 2 ^ 55))) * (1 / 2 ^ 55)"
    unfolding lit_0_2_def round_double_def q ..
  also have "\<dots> = of_int (rhe_div (2 ^ 55) 5) * (1 / 2 ^ 55)"
    unfolding e by (simp only: round_half_even_of_int_div[of 5 "2 ^ 55"])
  finally show ?thesis unfolding r by simp
qed

section \<open>Zoom bounds\<close>

lemma zoomIn_scale_bounds:
  assumes "1 / 2 \<le> scale s" "scale s \<le> 3"
  shows "1 / 2 \<le> scale (zoomIn s) \<and> scale (zoomIn s) \<le> 3"
proof -
  let ?x = "scale s + lit_0_2"
  have "1 / 8 \<le> ?x" "?x < 4" using assms by (simp_all add: lit_0_2_value)
  from round_double_near[OF this] have "?x - 1 / 2 ^ 52 \<le> round_double ?x" by simp
  moreover have "1 / 2 \<le> ?x - 1 / 2 ^ 52" using assms by (simp add: lit_0_2_value)
  ultimately have "1 / 2 \<le> round_double ?x" by linarith
  then show ?thesis by (simp add: zoomIn_def js_add_def)
qed

lemma zoomOut_scale_bounds:
  assumes "1 / 2 \<le> scale s" "scale s \<le> 3"
  shows "1 / 2 \<le> scale (zoomOut s) \<and> scale (zoomOut s) \<le> 3"
proof -
  let ?x = "scale s - lit_0_2"
  have "1 / 8 \<le> ?x" "?x < 4" using assms by (simp_all add: lit_0_2_value)
  from round_double_near[OF this] have "round_double ?x \<le> ?x + 1 / 2 ^ 52" by simp
  moreover have "?x + 1 / 2 ^ 52 \<le> 3" using assms by (simp add: lit_0_2_value)
  ultimately have "round_double ?x \<le> 3" by linarith
  then show ?thesis by (simp add: zoomOut_def js_sub_def)
qed

lemma run_zoom_bounds:
  "1 / 2 \<le> scale s \<Longrightarrow> scale s \<le> 3 \<Longrightarrow> \<forall>e\<in>set es. is_zoom e
     \<Longrightarrow> 1 / 2 \<le> scale (run s es) \<and> scale (run s es) \<le> 3"
proof (induction es arbitrary: s)
  case Nil
  then show ?case by simp
next
  case (Cons e es)
  from Cons.prems have z: "is_zoom e" by simp
  have "1 / 2 \<le> scale (handle e s) \<and> scale (handle e s) \<le> 3"
    using z Cons.prems(1,2) zoomIn_scale_bounds[of s] zoomOut_scale_bounds[of s]
    by (cases e) simp_all
  with Cons show ?case by simp
qed

text \<open>
  C3. From any \<open>scale\<close> in \<open>[0.5, 3.0]\<close>, after every sequence of \<open>zoomIn\<close> and
  \<open>zoomOut\<close> calls the \<open>scale\<close> is again in \<open>[0.5, 3.0]\<close>, both bounds included.
\<close>

theorem zoomScale_stays_in_bounds:
  "1 / 2 \<le> scale s \<and> scale s \<le> 3 \<and> (\<forall>e\<in>set es. is_zoom e)
     \<longrightarrow> 1 / 2 \<le> scale (run s es) \<and> scale (run s es) \<le> 3"
  using run_zoom_bounds[of s es] by blast

theorem zoomScale_stays_in_bounds_witness:
  "1 / 2 \<le> scale (run initial_state [ZoomInClicked, ZoomOutClicked, ZoomOutClicked])
   \<and> scale (run initial_state [ZoomInClicked, ZoomOutClicked, ZoomOutClicked]) \<le> 3"
  using zoomScale_stays_in_bounds
    [of initial_state "[ZoomInClicked, ZoomOutClicked, ZoomOutClicked]"]
  by (simp add: initial_state_def)

section \<open>Zoom on numerators over \<open>2^55\<close>\<close>

lemma js_add_units:
  assumes "2 ^ 54 \<le> m" "m \<le> 3 * 2 ^ 55"
  shows "js_add (of_int m / 2 ^ 55) lit_0_2 = of_int (round_units (m + 7205759403792794)) / 2 ^ 55"
proof -
  have "of_int m / 2 ^ 55 + lit_0_2 = (of_int (m + 7205759403792794) :: rat) / 2 ^ 55"
    by (simp add: lit_0_2_value add_divide_distrib)
  moreover have "2 ^ 52 \<le> m + 7205759403792794" "m + 7205759403792794 < 2 ^ 57"
    using assms by simp_all
  ultimately show ?thesis
    unfolding js_add_def by (simp only: round_double_units)
qed

lemma js_sub_units:
  assumes "2 ^ 54 \<le> m" "m \<le> 3 * 2 ^ 55"
  shows "js_sub (of_int m / 2 ^ 55) lit_0_2 = of_int (round_units (m - 7205759403792794)) / 2 ^ 55"
proof -
  have "of_int m / 2 ^ 55 - lit_0_2 = (of_int (m - 7205759403792794) :: rat) / 2 ^ 55"
    by (simp add: lit_0_2_value diff_divide_distrib)
  moreover have "2 ^ 52 \<le> m - 7205759403792794" "m - 7205759403792794 < 2 ^ 57"
    using assms by simp_all
  ultimately show ?thesis
    unfolding js_sub_def by (simp only: round_double_units)
qed

lemma min_units: "min (of_int a / 2 ^ 55 :: rat) 3 = of_int (min a (3 * 2 ^ 55)) / 2 ^ 55"
  by (simp add: min_def)

lemma max_units: "max (of_int a / 2 ^ 55 :: rat) (1 / 2) = of_int (max a (2 ^ 54)) / 2 ^ 55"
  by (simp add: max_def)

lemma zoomIn_on_units:
  assumes "2 ^ 54 \<le> m" "m \<le> 3 * 2 ^ 55" "scale s = of_int m / 2 ^ 55"
  shows "zoomIn s = s\<lparr>scale := of_int (zoomIn_units m) / 2 ^ 55\<rparr>"
  unfolding zoomIn_def assms(3) js_add_units[OF assms(1,2)] min_units zoomIn_units_def ..

lemma zoomOut_on_units:
  assumes "2 ^ 54 \<le> m" "m \<le> 3 * 2 ^ 55" "scale s = of_int m / 2 ^ 55"
  shows "zoomOut s = s\<lparr>scale := of_int (zoomOut_units m) / 2 ^ 55\<rparr>"
  unfolding zoomOut_def assms(3) js_sub_units[OF assms(1,2)] max_units zoomOut_units_def ..

lemma zoomIn_clamped_units:
  assumes "2 ^ 54 \<le> m" "m \<le> 3 * 2 ^ 55" "scale s = of_int m / 2 ^ 55"
  shows "zoomIn_clamped s \<longleftrightarrow> 3 * 2 ^ 55 < round_units (m + 7205759403792794)"
  unfolding zoomIn_clamped_def assms(3) js_add_units[OF assms(1,2)] by simp

lemma zoomOut_clamped_units:
  assumes "2 ^ 54 \<le> m" "m \<le> 3 * 2 ^ 55" "scale s = of_int m / 2 ^ 55"
  shows "zoomOut_clamped s \<longleftrightarrow> round_units (m - 7205759403792794) < 2 ^ 54"
  unfolding zoomOut_clamped_def assms(3) js_sub_units[OF assms(1,2)] by simp

lemma reachable_units_range: "\<forall>m\<in>set reachable_units. 2 ^ 54 \<le> m \<and> m \<le> 3 * 2 ^ 55"
  by (simp add: reachable_units_def)

lemma reachable_units_zoomIn: "\<forall>m\<in>set reachable_units. zoomIn_units m \<in> set reachable_units"
  unfolding reachable_units_def list.set ball_simps
  by (simp add: zoomIn_units_def round_units_def rhe_div_def)


lemma reachable_units_zoomOut: "\<forall>m\<in>set reachable_units. zoomOut_units m \<in> set reachable_units"
  unfolding reachable_units_def list.set ball_simps
  by (simp add: zoomOut_units_def round_units_def rhe_div_def)

lemma reachable_units_in_out:
  "\<forall>m\<in>set reachable_units.
     round_units (m + 7205759403792794) \<le> 3 * 2 ^ 55 \<longrightarrow> zoomOut_units (zoomIn_units m) = m"
  unfolding reachable_units_def list.set ball_simps
  by (simp add: zoomOut_units_def zoomIn_units_def round_units_def rhe_div_def)

lemma reachable_units_out_in:
  "\<forall>m\<in>set reachable_units.
     2 ^ 54 \<le> round_units (m - 7205759403792794) \<longrightarrow> zoomIn_units (zoomOut_units m) = m"
  unfolding reachable_units_def list.set ball_simps
  by (simp add: zoomOut_units_def zoomIn_units_def round_units_def rhe_div_def)

lemma zoom_reachable_units:
  "zoom_reachable s \<Longrightarrow> \<exists>m\<in>set reachable_units. scale s = of_int m / 2 ^ 55"
proof (induction rule: zoom_reachable.induct)
  case (start s)
  have "36028797018963968 \<in> set reachable_units" by (simp add: reachable_units_def)
  moreover have "scale s = of_int 36028797018963968 / 2 ^ 55" using start by simp
  ultimately show ?case by blast
next
  case (zoomed_in s)
  then obtain m where m: "m \<in> set reachable_units" "scale s = of_int m / 2 ^ 55" by blast
  from m(1) reachable_units_range have r: "2 ^ 54 \<le> m" "m \<le> 3 * 2 ^ 55" by blast+
  have "scale (zoomIn s) = of_int (zoomIn_units m) / 2 ^ 55"
    by (simp add: zoomIn_on_units[OF r m(2)])
  moreover have "zoomIn_units m \<in> set reachable_units"
    using m(1) reachable_units_zoomIn by blast
  ultimately show ?case by blast
next
  case (zoomed_out s)
  then obtain m where m: "m \<in> set reachable_units" "scale s = of_int m / 2 ^ 55" by blast
  from m(1) reachable_units_range have r: "2 ^ 54 \<le> m" "m \<le> 3 * 2 ^ 55" by blast+
  have "scale (zoomOut s) = of_int (zoomOut_units m) / 2 ^ 55"
    by (simp add: zoomOut_on_units[OF r m(2)])
  moreover have "zoomOut_units m \<in> set reachable_units"
    using m(1) reachable_units_zoomOut by blast
  ultimately show ?case by blast
qed

lemma zoomIn_units_range:
  assumes "2 ^ 54 \<le> m" "m \<le> 3 * 2 ^ 55"
  shows "2 ^ 54 \<le> zoomIn_units m \<and> zoomIn_units m \<le> 3 * 2 ^ 55"
proof -
  let ?s = "\<lparr>numPages = None, pageNumber = 1, scale = of_int m / 2 ^ 55\<rparr>"
  have "1 / 2 \<le> scale ?s" "scale ?s \<le> 3" using assms by simp_all
  from zoomIn_scale_bounds[OF this]
  have b: "1 / 2 \<le> scale (zoomIn ?s)" "scale (zoomIn ?s) \<le> 3" by simp_all
  have "zoomIn ?s = ?s\<lparr>scale := of_int (zoomIn_units m) / 2 ^ 55\<rparr>"
    by (rule zoomIn_on_units[OF assms]) simp
  then have e: "scale (zoomIn ?s) = of_int (zoomIn_units m) / 2 ^ 55" by simp
  from b have "(of_int (2 ^ 54) :: rat) \<le> of_int (zoomIn_units m)"
    "(of_int (zoomIn_units m) :: rat) \<le> of_int (3 * 2 ^ 55)"
    unfolding e by simp_all
  then show ?thesis unfolding of_int_le_iff by simp
qed

lemma zoomOut_units_range:
  assumes "2 ^ 54 \<le> m" "m \<le> 3 * 2 ^ 55"
  shows "2 ^ 54 \<le> zoomOut_units m \<and> zoomOut_units m \<le> 3 * 2 ^ 55"
proof -
  let ?s = "\<lparr>numPages = None, pageNumber = 1, scale = of_int m / 2 ^ 55\<rparr>"
  have "1 / 2 \<le> scale ?s" "scale ?s \<le> 3" using assms by simp_all
  from zoomOut_scale_bounds[OF this]
  have b: "1 / 2 \<le> scale (zoomOut ?s)" "scale (zoomOut ?s) \<le> 3" by simp_all
  have "zoomOut ?s = ?s\<lparr>scale := of_int (zoomOut_units m) / 2 ^ 55\<rparr>"
    by (rule zoomOut_on_units[OF assms]) simp
  then have e: "scale (zoomOut ?s) = of_int (zoomOut_units m) / 2 ^ 55" by simp
  from b have "(of_int (2 ^ 54) :: rat) \<le> of_int (zoomOut_units m)"
    "(of_int (zoomOut_units m) :: rat) \<le> of_int (3 * 2 ^ 55)"
    unfolding e by simp_all
  then show ?thesis unfolding of_int_le_iff by simp
qed

lemma zoom_round_trip_units:
  assumes "2 ^ 54 \<le> m" "m \<le> 3 * 2 ^ 55" "scale s = of_int m / 2 ^ 55"
  shows "zoomOut (zoomIn s) = s\<lparr>scale := of_int (zoomOut_units (zoomIn_units m)) / 2 ^ 55\<rparr>"
    and "zoomIn (zoomOut s) = s\<lparr>scale := of_int (zoomIn_units (zoomOut_units m)) / 2 ^ 55\<rparr>"
proof -
  let ?i = "s\<lparr>scale := of_int (zoomIn_units m) / 2 ^ 55\<rparr>"
  let ?o = "s\<lparr>scale := of_int (zoomOut_units m) / 2 ^ 55\<rparr>"
  from zoomIn_units_range[OF assms(1,2)]
  have "zoomOut ?i = ?i\<lparr>scale := of_int (zoomOut_units (zoomIn_units m)) / 2 ^ 55\<rparr>"
    by (intro zoomOut_on_units) simp_all
  then show "zoomOut (zoomIn s) = s\<lparr>scale := of_int (zoomOut_units (zoomIn_units m)) / 2 ^ 55\<rparr>"
    by (simp add: zoomIn_on_units[OF assms])
  from zoomOut_units_range[OF assms(1,2)]
  have "zoomIn ?o = ?o\<lparr>scale := of_int (zoomIn_units (zoomOut_units m)) / 2 ^ 55\<rparr>"
    by (intro zoomIn_on_units) simp_all
  then show "zoomIn (zoomOut s) = s\<lparr>scale := of_int (zoomIn_units (zoomOut_units m)) / 2 ^ 55\<rparr>"
    by (simp add: zoomOut_on_units[OF assms])
qed

lemma reachable_round_trip:
  assumes "zoom_reachable s"
  shows "\<not> zoomIn_clamped s \<Longrightarrow> zoomOut (zoomIn s) = s"
    and "\<not> zoomOut_clamped s \<Longrightarrow> zoomIn (zoomOut s) = s"
proof -
  from zoom_reachable_units[OF assms]
  obtain m where m: "m \<in> set reachable_units" "scale s = of_int m / 2 ^ 55" by blast
  from m(1) reachable_units_range have r: "2 ^ 54 \<le> m" "m \<le> 3 * 2 ^ 55" by blast+
  {
    assume "\<not> zoomIn_clamped s"
    then have "round_units (m + 7205759403792794) \<le> 3 * 2 ^ 55"
      by (simp add: zoomIn_clamped_units[OF r m(2)])
    with m(1) reachable_units_in_out have "zoomOut_units (zoomIn_units m) = m" by blast
    then have "zoomOut (zoomIn s) = s\<lparr>scale := scale s\<rparr>"
      unfolding m(2) by (simp only: zoom_round_trip_units(1)[OF r m(2)])
    then show "zoomOut (zoomIn s) = s" by simp
  }
  {
    assume "\<not> zoomOut_clamped s"
    then have "2 ^ 54 \<le> round_units (m - 7205759403792794)"
      by (simp add: zoomOut_clamped_units[OF r m(2)])
    with m(1) reachable_units_out_in have "zoomIn_units (zoomOut_units m) = m" by blast
    then have "zoomIn (zoomOut s) = s\<lparr>scale := scale s\<rparr>"
      unfolding m(2) by (simp only: zoom_round_trip_units(2)[OF r m(2)])
    then show "zoomIn (zoomOut s) = s" by simp
  }
qed

lemma zoom_at_ceiling:
  assumes "scale s = 3"
  shows "zoomIn s = s" and "scale (zoomOut (zoomIn s)) = round_double (28 / 10)"
    and "zoomIn_clamped s"
proof -
  have m: "scale s = of_int (3 * 2 ^ 55) / 2 ^ 55" using assms by simp
  have r: "(2::int) ^ 54 \<le> 3 * 2 ^ 55" "(3 * 2 ^ 55 :: int) \<le> 3 * 2 ^ 55" by simp_all
  have i: "zoomIn_units 108086391056891904 = 108086391056891904"
    by (simp add: zoomIn_units_def round_units_def rhe_div_def)
  have o: "zoomOut_units 108086391056891904 = 100880631653099104"
    by (simp add: zoomOut_units_def round_units_def rhe_div_def)
  show "zoomIn s = s"
    using assms by (simp add: zoomIn_on_units[OF r m] i)
  have q: "quantum (28 / 10) = of_int 16 / 2 ^ 55" by (simp add: quantum_cases)
  have e: "(28 / 10 :: rat) / (of_int 16 / 2 ^ 55) = of_int (28 * 2 ^ 55) / of_int 160" by simp
  have "round_double (28 / 10)
      = of_int (round_half_even ((28 / 10) / (of_int 16 / 2 ^ 55))) * (of_int 16 / 2 ^ 55)"
    unfolding round_double_def q ..
  also have "\<dots> = of_int (rhe_div (28 * 2 ^ 55) 160) * (of_int 16 / 2 ^ 55)"
    unfolding e by (simp only: round_half_even_of_int_div[of 160 "28 * 2 ^ 55"])
  also have "\<dots> = 100880631653099104 / 2 ^ 55" by (simp add: rhe_div_def)
  finally have l: "round_double (28 / 10) = 100880631653099104 / 2 ^ 55" .
  have "scale (zoomOut (zoomIn s)) = of_int (zoomOut_units (zoomIn_units (3 * 2 ^ 55))) / 2 ^ 55"
    by (simp add: zoom_round_trip_units(1)[OF r m])
  also have "\<dots> = 100880631653099104 / 2 ^ 55" by (simp add: i o)
  also have "\<dots> = round_double (28 / 10)" by (rule l[symmetric])
  finally show "scale (zoomOut (zoomIn s)) = round_double (28 / 10)" .
  show "zoomIn_clamped s"
    by (simp add: zoomIn_clamped_units[OF r m] round_units_def rhe_div_def)
qed


lemma round_double_quotient:
  fixes m k d :: int
  assumes "0 < k" "quantum x = of_int d / 2 ^ 55" "x / (of_int d / 2 ^ 55) = of_int m / of_int k"
  shows "round_double x = of_int (d * rhe_div m k) / 2 ^ 55"
proof -
  have "round_double x = of_int (round_half_even (x / (of_int d / 2 ^ 55))) * (of_int d / 2 ^ 55)"
    unfolding round_double_def assms(2) ..
  also have "\<dots> = of_int (rhe_div m k) * (of_int d / 2 ^ 55)"
    unfolding assms(3) round_half_even_of_int_div[OF assms(1)] ..
  also have "\<dots> = of_int (d * rhe_div m k) / 2 ^ 55" by simp
  finally show ?thesis .
qed

lemma lit_0_9_value: "round_double (9 / 10) = of_int 32425917317067572 / 2 ^ 55"
proof -
  have "round_double (9 / 10) = of_int (4 * rhe_div (9 * 2 ^ 55) 40) / 2 ^ 55"
    by (rule round_double_quotient) (simp_all add: quantum_cases)
  also have "4 * rhe_div (9 * 2 ^ 55) 40 = 32425917317067572" by (simp add: rhe_div_def)
  finally show ?thesis .
qed

lemma state_0_9_zoom:
  shows "\<not> zoomIn_clamped state_0_9"
    and "scale (zoomOut (zoomIn state_0_9)) = 32425917317067576 / 2 ^ 55"
    and "\<not> zoomOut_clamped state_0_9"
    and "scale (zoomIn (zoomOut state_0_9)) = 32425917317067568 / 2 ^ 55"
proof -
  have r: "(2::int) ^ 54 \<le> 32425917317067572" "(32425917317067572::int) \<le> 3 * 2 ^ 55"
    by simp_all
  have m: "scale state_0_9 = of_int 32425917317067572 / 2 ^ 55"
    by (simp only: lit_0_9_value view_state.select_convs)
  show "\<not> zoomIn_clamped state_0_9"
    unfolding zoomIn_clamped_units[OF r m] by (simp add: round_units_def rhe_div_def)
  show "\<not> zoomOut_clamped state_0_9"
    unfolding zoomOut_clamped_units[OF r m] by (simp add: round_units_def rhe_div_def)
  have "scale (zoomOut (zoomIn state_0_9))
      = of_int (zoomOut_units (zoomIn_units 32425917317067572)) / 2 ^ 55"
    unfolding zoom_round_trip_units(1)[OF r m] by simp
  also have "zoomOut_units (zoomIn_units 32425917317067572) = 32425917317067576"
    by (simp add: zoomOut_units_def zoomIn_units_def round_units_def rhe_div_def)
  finally show "scale (zoomOut (zoomIn state_0_9)) = 32425917317067576 / 2 ^ 55" by simp
  have "scale (zoomIn (zoomOut state_0_9))
      = of_int (zoomIn_units (zoomOut_units 32425917317067572)) / 2 ^ 55"
    unfolding zoom_round_trip_units(2)[OF r m] by simp
  also have "zoomIn_units (zoomOut_units 32425917317067572) = 32425917317067568"
    by (simp add: zoomOut_units_def zoomIn_units_def round_units_def rhe_div_def)
  finally show "scale (zoomIn (zoomOut state_0_9)) = 32425917317067568 / 2 ^ 55" by simp
qed

text \<open>
  The bounds alone do not give the round trip: the binary64 value \<open>0.9\<close> lies in
  \<open>[0.5, 3.0]\<close> and neither call is clamped there, yet \<open>0.9 + 0.2 - 0.2\<close> is the next
  value above \<open>0.9\<close> and \<open>0.9 - 0.2 + 0.2\<close> the next value below it. The component never
  holds that scale (from \<open>1.0\<close> it reaches \<open>0.8999999999999999\<close> instead), which is why
  the round trip below is stated for the scales it can hold.
\<close>

lemma state_0_9_not_reachable: "\<not> zoom_reachable state_0_9"
proof
  assume "zoom_reachable state_0_9"
  from zoom_reachable_units[OF this]
  obtain m where m: "m \<in> set reachable_units" "scale state_0_9 = of_int m / 2 ^ 55" by blast
  have "scale state_0_9 = of_int 32425917317067572 / 2 ^ 55"
    by (simp only: lit_0_9_value view_state.select_convs)
  with m(2) have "(of_int m :: rat) = of_int 32425917317067572" by simp
  then have "m = 32425917317067572" by (simp only: of_int_eq_iff)
  with m(1) show False by (simp add: reachable_units_def)
qed

lemma round_trip_off_at_0_9:
  "1 / 2 \<le> scale state_0_9 \<and> scale state_0_9 \<le> 3
   \<and> \<not> zoomIn_clamped state_0_9 \<and> scale (zoomOut (zoomIn state_0_9)) \<noteq> scale state_0_9
   \<and> \<not> zoomOut_clamped state_0_9 \<and> scale (zoomIn (zoomOut state_0_9)) \<noteq> scale state_0_9"
proof -
  have m: "scale state_0_9 = 32425917317067572 / 2 ^ 55"
    by (simp only: lit_0_9_value view_state.select_convs of_int_numeral)
  show ?thesis
    unfolding state_0_9_zoom(2,4) m using state_0_9_zoom(1,3) by simp
qed

text \<open>
  C4. For every scale the component can hold (reached from the initial \<open>1.0\<close>
  by \<open>zoomIn\<close> and \<open>zoomOut\<close> calls), \<open>zoomIn\<close> then \<open>zoomOut\<close> restores the state
  unless the \<open>zoomIn\<close> was clamped, and \<open>zoomOut\<close> then \<open>zoomIn\<close> restores it unless
  the \<open>zoomOut\<close> was clamped. At \<open>3.0\<close> the \<open>zoomIn\<close> is clamped and changes nothing,
  and the following \<open>zoomOut\<close> gives the binary64 value \<open>2.8\<close>.
\<close>

theorem zoom_round_trip_reachable_scales:
  "(zoom_reachable s \<and> \<not> zoomIn_clamped s \<longrightarrow> zoomOut (zoomIn s) = s)
   \<and> (zoom_reachable s \<and> \<not> zoomOut_clamped s \<longrightarrow> zoomIn (zoomOut s) = s)
   \<and> (scale s = 3 \<longrightarrow> zoomIn_clamped s \<and> zoomIn s = s
         \<and> scale (zoomOut (zoomIn s)) = round_double (28 / 10))"
  using reachable_round_trip[of s] zoom_at_ceiling[of s] by blast

theorem zoom_round_trip_reachable_scales_witness:
  "zoom_reachable initial_state \<and> \<not> zoomIn_clamped initial_state
   \<and> zoomOut (zoomIn initial_state) = initial_state
   \<and> \<not> zoomOut_clamped initial_state
   \<and> zoomIn (zoomOut initial_state) = initial_state
   \<and> zoomIn (initial_state\<lparr>scale := 3\<rparr>) = initial_state\<lparr>scale := 3\<rparr>
   \<and> scale (zoomOut (zoomIn (initial_state\<lparr>scale := 3\<rparr>))) = round_double (28 / 10)"
proof -
  have r: "(2::int) ^ 54 \<le> 2 ^ 55" "(2 ^ 55 :: int) \<le> 3 * 2 ^ 55" by simp_all
  have m: "scale initial_state = of_int (2 ^ 55) / 2 ^ 55" by (simp add: initial_state_def)
  have a: "zoom_reachable initial_state"
    by (rule zoom_reachable.start) (simp add: initial_state_def)
  have b: "\<not> zoomIn_clamped initial_state"
    unfolding zoomIn_clamped_units[OF r m] by (simp add: round_units_def rhe_div_def)
  have c: "\<not> zoomOut_clamped initial_state"
    unfolding zoomOut_clamped_units[OF r m] by (simp add: round_units_def rhe_div_def)
  have d: "scale (initial_state\<lparr>scale := 3\<rparr>) = 3" by simp
  show ?thesis
    using a b c d zoom_round_trip_reachable_scales[of initial_state]
      zoom_round_trip_reachable_scales[of "initial_state\<lparr>scale := 3\<rparr>"]
    by blast
qed

section \<open>Loading the document\<close>

lemma onDocumentLoadSuccess_eq: "onDocumentLoadSuccess n s = s\<lparr>numPages := Some n\<rparr>"
  by (cases s) (simp add: onDocumentLoadSuccess_def Let_def)


lemma thumbnail_items_pages:
  "thumbnail_items n c = Inr items \<Longrightarrow> page \<in> fst ` set items \<Longrightarrow> 1 \<le> page \<and> page \<le> n"
  by (auto simp: thumbnail_items_def Let_def split: if_splits)

lemma enabled_thumbnail:
  assumes "enabled s (ThumbnailClicked page)"
  shows "\<exists>n. numPages s = Some n \<and> 1 \<le> page \<and> page \<le> n"
proof (cases "numPages s")
  case None
  with assms show ?thesis by (simp add: sidebar_def)
next
  case (Some n)
  with assms thumbnail_items_pages[of n "pageNumber s" _ page] show ?thesis
    by (auto simp: sidebar_def split: sum.splits if_splits)
qed






text \<open>
  The load callback of the two earlier versions, which mount one \<open>Document\<close> and so see
  one load, would move a later load back to page 1.
\<close>

lemma onDocumentLoadSuccess_v1_resets:
  "numPages (onDocumentLoadSuccess_v1 n s) = Some n \<and> pageNumber (onDocumentLoadSuccess_v1 n s) = 1"
  by (simp add: onDocumentLoadSuccess_v1_def)




section \<open>Page range\<close>

lemma handle_navigation_range:
  assumes "numPages s = Some T" "1 \<le> pageNumber s" "pageNumber s \<le> T" "is_navigation T e"
  shows "numPages (handle e s) = Some T \<and> 1 \<le> pageNumber (handle e s)
         \<and> pageNumber (handle e s) \<le> T"
  using assms by (cases e) (simp_all add: goToPrevPage_def goToNextPage_def goToPage_def)

lemma run_navigation_range:
  "numPages s = Some T \<Longrightarrow> 1 \<le> pageNumber s \<Longrightarrow> pageNumber s \<le> T
     \<Longrightarrow> \<forall>e\<in>set es. is_navigation T e
     \<Longrightarrow> numPages (run s es) = Some T \<and> 1 \<le> pageNumber (run s es) \<and> pageNumber (run s es) \<le> T"
proof (induction es arbitrary: s)
  case Nil
  then show ?case by simp
next
  case (Cons e es)
  from Cons.prems have "is_navigation T e" by simp
  from handle_navigation_range[OF Cons.prems(1-3) this] Cons.prems(4) Cons.IH[of "handle e s"]
  show ?case by simp
qed

text \<open>
  C2. Once \<open>numPages = T\<close> is set and \<open>pageNumber\<close> is in \<open>[1, T]\<close> (as it is right after
  the first load of a document with at least one page), every sequence of
  \<open>goToPrevPage\<close>, \<open>goToNextPage\<close> and \<open>goToPage p\<close> calls with \<open>p\<close> in \<open>[1, T]\<close> leaves
  \<open>pageNumber\<close> in \<open>[1, T]\<close>.
\<close>

theorem currentPage_stays_in_range:
  "(numPages s = Some T \<and> 1 \<le> pageNumber s \<and> pageNumber s \<le> T
      \<and> (\<forall>e\<in>set es. is_navigation T e)
    \<longrightarrow> numPages (run s es) = Some T
        \<and> 1 \<le> pageNumber (run s es) \<and> pageNumber (run s es) \<le> T)
   \<and> (1 \<le> T \<and> (\<forall>e\<in>set es. is_navigation T e)
    \<longrightarrow> 1 \<le> pageNumber (run (onDocumentLoadSuccess T initial_state) es)
        \<and> pageNumber (run (onDocumentLoadSuccess T initial_state) es) \<le> T)"
proof (intro conjI impI)
  assume a: "1 \<le> T \<and> (\<forall>e\<in>set es. is_navigation T e)"
  let ?s = "onDocumentLoadSuccess T initial_state"
  have "numPages ?s = Some T" "1 \<le> pageNumber ?s" "pageNumber ?s \<le> T"
    using a by (simp_all add: onDocumentLoadSuccess_eq initial_state_def)
  from run_navigation_range[OF this] a
  show "1 \<le> pageNumber (run ?s es)" "pageNumber (run ?s es) \<le> T" by simp_all
qed (use run_navigation_range[of s T es] in simp_all)

theorem currentPage_stays_in_range_witness:
  "1 \<le> pageNumber (run \<lparr>numPages = Some 5, pageNumber = 3, scale = 1\<rparr>
          [NextClicked, NextClicked, NextClicked, ThumbnailClicked 1, PrevClicked])
   \<and> pageNumber (run \<lparr>numPages = Some 5, pageNumber = 3, scale = 1\<rparr>
          [NextClicked, NextClicked, NextClicked, ThumbnailClicked 1, PrevClicked]) \<le> 5
   \<and> 1 \<le> pageNumber (run (onDocumentLoadSuccess 5 initial_state) [NextClicked, PrevClicked])
   \<and> pageNumber (run (onDocumentLoadSuccess 5 initial_state) [NextClicked, PrevClicked]) \<le> 5"
  using currentPage_stays_in_range
      [of "\<lparr>numPages = Some 5, pageNumber = 3, scale = 1\<rparr>" 5
          "[NextClicked, NextClicked, NextClicked, ThumbnailClicked 1, PrevClicked]"]
    currentPage_stays_in_range [of initial_state 5 "[NextClicked, PrevClicked]"]
  by simp

section \<open>Thumbnail projection\<close>

lemma pages_upto: "map (\<lambda>index. int index + 1) [0..<k] = [1..int k]"
proof (induction k)
  case 0
  then show ?case by simp
next
  case (Suc k)
  have "[1..int (Suc k)] = [1..int k] @ [int k + 1]"
    using upto_rec2[of 1 "int (Suc k)"] by simp
  with Suc show ?case by simp
qed

lemma thumbnail_items_upto:
  assumes "0 \<le> n" "n < 2 ^ 32"
  shows "thumbnail_items n c = Inr (map (\<lambda>p. (p, p = c)) [1..n])"
proof -
  have "map (\<lambda>index. let page = int index + 1; isActive = (page = c) in (page, isActive))
          [0..<nat n]
      = map (\<lambda>p. (p, p = c)) (map (\<lambda>index. int index + 1) [0..<nat n])"
    by (simp add: Let_def)
  also have "\<dots> = map (\<lambda>p. (p, p = c)) [1..n]"
    using assms(1) by (simp only: pages_upto) simp
  finally show ?thesis using assms by (simp add: thumbnail_items_def)
qed

text \<open>
  C8. For a page count \<open>n\<close> (that an array can hold) and current page \<open>c\<close> the thumbnail
  list is \<open>(p, p = c)\<close> for \<open>p = 1, ..., n\<close> in ascending order, and that is what the
  sidebar shows once \<open>numPages\<close> is set; for 3 pages on page 2 it is
  \<open>[(1, False), (2, True), (3, False)]\<close>.
\<close>

theorem thumbnail_projection:
  "(0 \<le> n \<and> n < 2 ^ 32 \<longrightarrow> thumbnail_items n c = Inr (map (\<lambda>p. (p, p = c)) [1..n]))
   \<and> (numPages s = Some n \<and> 0 \<le> n \<and> n < 2 ^ 32
        \<longrightarrow> sidebar s = Inr (map (\<lambda>p. (p, p = pageNumber s)) [1..n]))
   \<and> thumbnail_items 3 2 = Inr [(1, False), (2, True), (3, False)]"
proof (intro conjI impI)
  assume "0 \<le> n \<and> n < 2 ^ 32"
  then show "thumbnail_items n c = Inr (map (\<lambda>p. (p, p = c)) [1..n])"
    by (simp add: thumbnail_items_upto)
next
  assume a: "numPages s = Some n \<and> 0 \<le> n \<and> n < 2 ^ 32"
  show "sidebar s = Inr (map (\<lambda>p. (p, p = pageNumber s)) [1..n])"
  proof (cases "n = 0")
    case True
    with a show ?thesis by (simp add: sidebar_def)
  next
    case False
    with a show ?thesis by (simp add: sidebar_def thumbnail_items_upto)
  qed
next
  have "thumbnail_items 3 2 = Inr (map (\<lambda>p. (p, p = 2)) [1..3])"
    by (rule thumbnail_items_upto) simp_all
  also have "[1..3::int] = [1, 2, 3]" by (simp add: upto_rec1)
  finally show "thumbnail_items 3 2 = Inr [(1, False), (2, True), (3, False)]" by simp
qed

theorem thumbnail_projection_witness:
  "thumbnail_items 4 1 = Inr [(1, True), (2, False), (3, False), (4, False)]
   \<and> sidebar \<lparr>numPages = Some 2, pageNumber = 2, scale = 1\<rparr> = Inr [(1, False), (2, True)]"
proof -
  have "[1..4::int] = [1, 2, 3, 4]" "[1..2::int] = [1, 2]" by (simp_all add: upto_rec1)
  then show ?thesis
    using thumbnail_projection[of 4 1 "\<lparr>numPages = Some 4, pageNumber = 1, scale = 1\<rparr>"]
      thumbnail_projection[of 2 2 "\<lparr>numPages = Some 2, pageNumber = 2, scale = 1\<rparr>"]
    by simp
qed

section \<open>Frame conditions\<close>

text \<open>
  C9. The navigation handlers write \<open>pageNumber\<close> only, the zoom handlers write \<open>scale\<close>
  only, and the load callback writes neither. So among all events of the component only
  the three navigation actions can change \<open>pageNumber\<close> and only the two zoom actions
  can change \<open>scale\<close>.
\<close>

theorem handlers_frame:
  "(numPages (goToPrevPage s) = numPages s \<and> scale (goToPrevPage s) = scale s)
   \<and> (numPages (goToNextPage s) = numPages s \<and> scale (goToNextPage s) = scale s)
   \<and> (numPages (goToPage p s) = numPages s \<and> scale (goToPage p s) = scale s)
   \<and> (numPages (zoomIn s) = numPages s \<and> pageNumber (zoomIn s) = pageNumber s)
   \<and> (numPages (zoomOut s) = numPages s \<and> pageNumber (zoomOut s) = pageNumber s)
   \<and> (pageNumber (onDocumentLoadSuccess n s) = pageNumber s
        \<and> scale (onDocumentLoadSuccess n s) = scale s)
   \<and> (pageNumber (handle e s) \<noteq> pageNumber s
        \<longrightarrow> e = PrevClicked \<or> e = NextClicked \<or> (\<exists>page. e = ThumbnailClicked page))
   \<and> (scale (handle e s) \<noteq> scale s \<longrightarrow> e = ZoomInClicked \<or> e = ZoomOutClicked)"
proof -
  have "pageNumber (handle e s) \<noteq> pageNumber s
        \<longrightarrow> e = PrevClicked \<or> e = NextClicked \<or> (\<exists>page. e = ThumbnailClicked page)"
    by (cases e) (simp_all add: onDocumentLoadSuccess_eq zoomIn_def zoomOut_def)
  moreover have "scale (handle e s) \<noteq> scale s \<longrightarrow> e = ZoomInClicked \<or> e = ZoomOutClicked"
    by (cases e)
      (simp_all add: onDocumentLoadSuccess_eq goToPrevPage_def goToNextPage_def goToPage_def)
  ultimately show ?thesis
    by (simp add: onDocumentLoadSuccess_eq goToPrevPage_def goToNextPage_def goToPage_def
        zoomIn_def zoomOut_def)
qed

theorem handlers_frame_witness:
  "pageNumber (handle NextClicked \<lparr>numPages = Some 5, pageNumber = 1, scale = 1\<rparr>) \<noteq> 1
   \<and> scale (handle NextClicked \<lparr>numPages = Some 5, pageNumber = 1, scale = 1\<rparr>) = 1
   \<and> scale (handle ZoomInClicked initial_state) \<noteq> scale initial_state
   \<and> pageNumber (handle ZoomInClicked initial_state) = pageNumber initial_state"
proof -
  have r: "(2::int) ^ 54 \<le> 2 ^ 55" "(2 ^ 55 :: int) \<le> 3 * 2 ^ 55" by simp_all
  have m: "scale initial_state = of_int (2 ^ 55) / 2 ^ 55" by (simp add: initial_state_def)
  have "zoomIn_units (2 ^ 55) = 43234556422756760"
    by (simp add: zoomIn_units_def round_units_def rhe_div_def)
  then have "scale (zoomIn initial_state) = 43234556422756760 / 2 ^ 55"
    unfolding zoomIn_on_units[OF r m] by simp
  then have z: "scale (handle ZoomInClicked initial_state) \<noteq> scale initial_state"
    by (simp add: initial_state_def)
  have n: "pageNumber (handle NextClicked \<lparr>numPages = Some 5, pageNumber = 1, scale = 1\<rparr>) \<noteq> 1"
    by (simp add: goToNextPage_def)
  show ?thesis
    using z n handlers_frame[of "\<lparr>numPages = Some 5, pageNumber = 1, scale = 1\<rparr>" 1 5 NextClicked]
      handlers_frame[of initial_state 1 5 ZoomInClicked]
    by simp
qed

section \<open>Next page before the document is loaded\<close>

lemma enabled_keeps_page_positive:
  assumes "enabled s e" "1 \<le> pageNumber s"
  shows "1 \<le> pageNumber (handle e s)"
proof (cases e)
  case (ThumbnailClicked page)
  with enabled_thumbnail[of s page] assms(1) show ?thesis by (auto simp: goToPage_def)
next
  case NextClicked
  with assms show ?thesis by (simp add: goToNextPage_def)
qed (use assms in \<open>simp_all add: onDocumentLoadSuccess_eq goToPrevPage_def zoomIn_def zoomOut_def\<close>)

lemma ui_run_page_positive:
  "ui_run s es = Some s' \<Longrightarrow> 1 \<le> pageNumber s \<Longrightarrow> 1 \<le> pageNumber s'"
proof (induction es arbitrary: s)
  case Nil
  then show ?case by simp
next
  case (Cons e es)
  from Cons.prems(1) have en: "enabled s e" and r: "ui_run (handle e s) es = Some s'"
    by (simp_all split: if_splits)
  show ?case by (rule Cons.IH[OF r enabled_keeps_page_positive[OF en Cons.prems(2)]])
qed

text \<open>
  C10. Called while \<open>numPages\<close> is \<open>null\<close>, \<open>goToNextPage\<close> sets \<open>pageNumber\<close> to \<open>0\<close> from
  any page \<open>k \<ge> 1\<close>, since \<open>Math.min\<close> reads \<open>null\<close> as \<open>0\<close>. The \<open>Next\<close> button is not
  rendered in such a state; with \<open>numPages\<close> known and at least 1 the result is at least
  1, and no run of the component through its rendered controls leaves \<open>pageNumber \<ge> 1\<close>.
\<close>

theorem goToNextPage_unknown_numPages:
  "(numPages s = None \<and> 1 \<le> pageNumber s \<longrightarrow> pageNumber (goToNextPage s) = 0)
   \<and> (numPages s = None \<longrightarrow> \<not> enabled s NextClicked)
   \<and> (numPages s = Some T \<and> 1 \<le> T \<and> 1 \<le> pageNumber s \<longrightarrow> 1 \<le> pageNumber (goToNextPage s))
   \<and> (ui_run initial_state es = Some s \<longrightarrow> 1 \<le> pageNumber s)"
proof (intro conjI impI)
  assume "ui_run initial_state es = Some s"
  from ui_run_page_positive[OF this] show "1 \<le> pageNumber s" by (simp add: initial_state_def)
qed (simp_all add: goToNextPage_def)

theorem goToNextPage_unknown_numPages_witness:
  "pageNumber (goToNextPage \<lparr>numPages = None, pageNumber = 4, scale = 1\<rparr>) = 0
   \<and> \<not> enabled \<lparr>numPages = None, pageNumber = 4, scale = 1\<rparr> NextClicked
   \<and> 1 \<le> pageNumber (goToNextPage \<lparr>numPages = Some 5, pageNumber = 4, scale = 1\<rparr>)
   \<and> ui_run initial_state [DocumentLoaded 5, NextClicked]
       = Some \<lparr>numPages = Some 5, pageNumber = 2, scale = 1\<rparr>"
proof -
  have b: "ui_run initial_state [DocumentLoaded 5, NextClicked]
       = Some \<lparr>numPages = Some 5, pageNumber = 2, scale = 1\<rparr>"
    by (simp add: initial_state_def onDocumentLoadSuccess_def goToNextPage_def)
  show ?thesis
    using b goToNextPage_unknown_numPages
        [of "\<lparr>numPages = None, pageNumber = 4, scale = 1\<rparr>" 5 "[]"]
      goToNextPage_unknown_numPages
        [of "\<lparr>numPages = Some 5, pageNumber = 4, scale = 1\<rparr>" 5 "[]"]
      goToNextPage_unknown_numPages
        [of "\<lparr>numPages = Some 5, pageNumber = 2, scale = 1\<rparr>" 5 "[DocumentLoaded 5, NextClicked]"]
    by simp
qed

end
